theory Spec2Isabelle
  imports Main
begin

section \<open>Rules engine of the Tic-Tac-Toe front end (App.js)\<close>

subsection \<open>Data model\<close>

text \<open>
  A square of the board holds \<^verbatim>\<open>null\<close>, \<^verbatim>\<open>"X"\<close> or \<^verbatim>\<open>"O"\<close>. The two marks are a
  datatype (\<open>MarkX\<close> for \<^verbatim>\<open>"X"\<close>, \<open>MarkO\<close> for \<^verbatim>\<open>"O"\<close>), a square is an optional
  mark (\<open>None\<close> is \<^verbatim>\<open>null\<close>), and a board is the JavaScript array of its squares.
  \<^verbatim>\<open>emptyBoard()\<close> is \<^verbatim>\<open>Array(9).fill(null)\<close>.
\<close>

datatype mark = MarkX | MarkO

type_synonym cell = "mark option"

type_synonym squares = "cell list"

definition emptyBoard :: squares where
  "emptyBoard = replicate 9 None"

text \<open>
  The \<^verbatim>\<open>winner\<close> field of a result is one of the strings \<^verbatim>\<open>"X"\<close>, \<^verbatim>\<open>"O"\<close>,
  \<^verbatim>\<open>"tie"\<close> (\<open>Won MarkX\<close>, \<open>Won MarkO\<close>, \<open>Tie\<close>); in the component's \<^verbatim>\<open>status\<close>
  state it may also be \<^verbatim>\<open>null\<close>.
\<close>

datatype outcome = Won mark | Tie

record result =
  winner :: "outcome option"
  line :: "nat list"

text \<open>
  \<^verbatim>\<open>squares[i]\<close>. Reading past the end of a JavaScript array gives \<^verbatim>\<open>undefined\<close>;
  the program only tests such a value for truthiness or compares it with a truthy one,
  where \<^verbatim>\<open>undefined\<close> behaves as \<^verbatim>\<open>null\<close> does, so both are \<open>None\<close>.
\<close>

definition at :: "squares \<Rightarrow> nat \<Rightarrow> cell" where
  "at sq i = (if i < length sq then sq ! i else None)"

text \<open>
  \<^verbatim>\<open>copy[i] = v\<close>. Writing past the end extends the array; the cells in between
  read as \<^verbatim>\<open>undefined\<close>. (They are holes, which \<^verbatim>\<open>every\<close> would skip. The
  component writes only at indices 0 to 8 of boards of nine squares, where none arises,
  and \<^verbatim>\<open>computeAIMove\<close> only asks whether a copy is won, which no hole changes.)
\<close>

definition js_set :: "squares \<Rightarrow> nat \<Rightarrow> cell \<Rightarrow> squares" where
  "js_set sq i v =
     (if i < length sq then sq[i := v]
      else sq @ replicate (i - length sq) None @ [v])"

subsection \<open>calculateWinner\<close>

definition lines :: "(nat \<times> nat \<times> nat) list" where
  "lines = [(0, 1, 2), (3, 4, 5), (6, 7, 8),
            (0, 3, 6), (1, 4, 7), (2, 5, 8),
            (0, 4, 8), (2, 4, 6)]"

text \<open>The test of the loop body: the three squares hold the same mark.\<close>

definition filled :: "squares \<Rightarrow> nat \<times> nat \<times> nat \<Rightarrow> bool" where
  "filled sq l =
     (case l of (a, b, c) \<Rightarrow> at sq a \<noteq> None \<and> at sq a = at sq b \<and> at sq a = at sq c)"

text \<open>The \<^verbatim>\<open>for (const [a, b, c] of lines)\<close> loop, returning at the first hit.\<close>

fun scan :: "squares \<Rightarrow> (nat \<times> nat \<times> nat) list \<Rightarrow> result option" where
  "scan sq [] = None"
| "scan sq ((a, b, c) # ls) =
     (case at sq a of
        None \<Rightarrow> scan sq ls
      | Some m \<Rightarrow>
          if at sq a = at sq b \<and> at sq a = at sq c
          then Some \<lparr>winner = Some (Won m), line = [a, b, c]\<rparr>
          else scan sq ls)"

definition calculateWinner :: "squares \<Rightarrow> result option" where
  "calculateWinner sq =
     (case scan sq lines of
        Some r \<Rightarrow> Some r
      | None \<Rightarrow>
          if list_all (\<lambda>c. c \<noteq> None) sq
          then Some \<lparr>winner = Some Tie, line = []\<rparr>
          else None)"

subsection \<open>computeAIMove\<close>

text \<open>\<^verbatim>\<open>calculateWinner(copy)?.winner === m\<close>, for a mark \<open>m\<close>.\<close>

definition winnerIs :: "result option \<Rightarrow> mark \<Rightarrow> bool" where
  "winnerIs r m = (case r of None \<Rightarrow> False | Some v \<Rightarrow> winner v = Some (Won m))"

text \<open>
  The loop \<^verbatim>\<open>for (let i = 0; i < 9; i++)\<close> that the source writes twice, once with
  \<^verbatim>\<open>aiMark\<close> (try to win) and once with \<^verbatim>\<open>playerMark\<close> (block): on each empty
  square it copies the board, puts the mark on the copy and returns the index when the
  copy is won by that mark. \<open>None\<close>: the loop ran to its end.
\<close>

fun tryCells :: "squares \<Rightarrow> mark \<Rightarrow> nat list \<Rightarrow> nat option" where
  "tryCells b m [] = None"
| "tryCells b m (i # rest) =
     (if at b i = None
      then (let copy = js_set b i (Some m)
            in if winnerIs (calculateWinner copy) m then Some i else tryCells b m rest)
      else tryCells b m rest)"

text \<open>
  \<^verbatim>\<open>xs[Math.floor(Math.random() * xs.length)]\<close>. The random draw is a parameter:
  \<open>rnd n\<close> is the value \<^verbatim>\<open>Math.floor(Math.random() * n)\<close> takes, which JavaScript
  keeps below \<open>n\<close> for \<open>n > 0\<close>. An index outside the array reads \<^verbatim>\<open>undefined\<close>,
  which is \<open>None\<close> here.
\<close>

definition pickRandom :: "(nat \<Rightarrow> nat) \<Rightarrow> nat list \<Rightarrow> int option" where
  "pickRandom rnd xs =
     (if rnd (length xs) < length xs then Some (int (xs ! rnd (length xs))) else None)"

definition computeAIMove :: "squares \<Rightarrow> mark \<Rightarrow> mark \<Rightarrow> (nat \<Rightarrow> nat) \<Rightarrow> int option" where
  "computeAIMove b aiMark playerMark rnd =
     (case tryCells b aiMark [0..<9] of
        Some i \<Rightarrow> Some (int i)
      | None \<Rightarrow>
     (case tryCells b playerMark [0..<9] of
        Some i \<Rightarrow> Some (int i)
      | None \<Rightarrow>
     (if at b 4 = None then Some 4
      else (let corners = filter (\<lambda>i. at b i = None) [0, 2, 6, 8]
            in if corners \<noteq> [] then pickRandom rnd corners
               else (let sides = filter (\<lambda>i. at b i = None) [1, 3, 5, 7]
                     in if sides \<noteq> [] then pickRandom rnd sides
                        else Some (- 1))))))"

text \<open>
  What the specification calls a cell that wins for a mark: an empty cell of the board
  whose filling with the mark makes \<open>calculateWinner\<close> report that mark as the winner.
\<close>

definition winsAt :: "squares \<Rightarrow> mark \<Rightarrow> nat \<Rightarrow> bool" where
  "winsAt b m i = (i < 9 \<and> at b i = None \<and> winnerIs (calculateWinner (b[i := Some m])) m)"

text \<open>A well-behaved random draw: \<^verbatim>\<open>Math.floor(Math.random() * n)\<close> lies in \<open>0..n-1\<close>.\<close>

definition inRange :: "(nat \<Rightarrow> nat) \<Rightarrow> bool" where
  "inRange rnd = (rnd 1 < 1 \<and> rnd 2 < 2 \<and> rnd 3 < 3 \<and> rnd 4 < 4)"

subsection \<open>Arrays as objects: the store\<close>

text \<open>
  JavaScript arrays are mutable objects reached through references. Where a claim is
  about mutation, the arrays live in a store: a list of arrays, a reference being an
  index into it. \<^verbatim>\<open>[...board]\<close> allocates a new array with the same squares, and
  \<^verbatim>\<open>copy[i] = v\<close> overwrites the array the reference points to.
\<close>

type_synonym store = "squares list"

definition deref :: "store \<Rightarrow> nat \<Rightarrow> squares" where
  "deref h a = (if a < length h then h ! a else [])"

definition alloc :: "store \<Rightarrow> squares \<Rightarrow> store \<times> nat" where
  "alloc h sq = (h @ [sq], length h)"

definition spread :: "store \<Rightarrow> nat \<Rightarrow> store \<times> nat" where
  "spread h a = alloc h (deref h a)"

definition assign :: "store \<Rightarrow> nat \<Rightarrow> nat \<Rightarrow> cell \<Rightarrow> store" where
  "assign h a i v = h[a := js_set (deref h a) i v]"

text \<open>The two loops and the whole of \<^verbatim>\<open>computeAIMove\<close> again, on the store.\<close>

fun tryCellsH :: "store \<Rightarrow> nat \<Rightarrow> mark \<Rightarrow> nat list \<Rightarrow> nat option \<times> store" where
  "tryCellsH h a m [] = (None, h)"
| "tryCellsH h a m (i # rest) =
     (if at (deref h a) i = None
      then (case spread h a of
              (h1, copy) \<Rightarrow>
                (let h2 = assign h1 copy i (Some m)
                 in if winnerIs (calculateWinner (deref h2 copy)) m then (Some i, h2)
                    else tryCellsH h2 a m rest))
      else tryCellsH h a m rest)"

definition computeAIMoveH ::
  "store \<Rightarrow> nat \<Rightarrow> mark \<Rightarrow> mark \<Rightarrow> (nat \<Rightarrow> nat) \<Rightarrow> int option \<times> store" where
  "computeAIMoveH h a aiMark playerMark rnd =
     (case tryCellsH h a aiMark [0..<9] of
        (Some i, h1) \<Rightarrow> (Some (int i), h1)
      | (None, h1) \<Rightarrow>
     (case tryCellsH h1 a playerMark [0..<9] of
        (Some i, h2) \<Rightarrow> (Some (int i), h2)
      | (None, h2) \<Rightarrow>
     (if at (deref h2 a) 4 = None then (Some 4, h2)
      else (let corners = filter (\<lambda>i. at (deref h2 a) i = None) [0, 2, 6, 8]
            in if corners \<noteq> [] then (pickRandom rnd corners, h2)
               else (let sides = filter (\<lambda>i. at (deref h2 a) i = None) [1, 3, 5, 7]
                     in if sides \<noteq> [] then (pickRandom rnd sides, h2)
                        else (Some (- 1), h2))))))"

section \<open>The App component\<close>

subsection \<open>State\<close>

text \<open>
  The component keeps five \<^verbatim>\<open>useState\<close> variables: \<^verbatim>\<open>mode\<close> (\<^verbatim>\<open>"pvp"\<close> or
  \<^verbatim>\<open>"ai"\<close>), \<^verbatim>\<open>board\<close> (a reference to an array), \<^verbatim>\<open>xIsNext\<close>, \<^verbatim>\<open>aiTurn\<close> and
  \<^verbatim>\<open>status\<close>. Around them the model carries what the run time holds: the store of
  arrays, the pending \<^verbatim>\<open>setTimeout\<close> callbacks (each closes over its
  \<^verbatim>\<open>boardCopy\<close>; all have the same delay, so they fire in the order they were set),
  and for each of the three \<^verbatim>\<open>useEffect\<close> hooks the dependency values of the last
  committed render (\<open>None\<close> before the first one).
\<close>

datatype mode = PvP | AI

record app =
  heap :: store
  mode :: mode
  board :: nat
  xIsNext :: bool
  aiTurn :: bool
  status :: result
  timers :: "nat list"
  depsMode :: "mode option"
  depsBoard :: "nat option"
  depsAI :: "(bool \<times> nat \<times> mode \<times> outcome option) option"

definition playerMark :: mark where
  "playerMark = MarkX"

definition aiMark :: mark where
  "aiMark = MarkO"

definition noStatus :: result where
  "noStatus = \<lparr>winner = None, line = []\<rparr>"

subsection \<open>Event handlers\<close>

text \<open>
  A handler runs with the state of the render it was created in and queues updates;
  \<open>handleClick i s\<close> is the state after those updates. The board is a reference:
  \<^verbatim>\<open>[...board]\<close> allocates the copy that the move is written to.
\<close>

definition handleClick :: "nat \<Rightarrow> app \<Rightarrow> app" where
  "handleClick i s =
     (if winner (status s) \<noteq> None \<or> at (deref (heap s) (board s)) i \<noteq> None then s
      else if mode s = PvP \<or> (mode s = AI \<and> xIsNext s)
      then (case spread (heap s) (board s) of
              (h1, boardCopy) \<Rightarrow>
                s\<lparr>heap := assign h1 boardCopy i (Some (if xIsNext s then MarkX else MarkO)),
                  board := boardCopy,
                  xIsNext := \<not> xIsNext s,
                  aiTurn := False\<rparr>)
      else s)"

text \<open>
  \<^verbatim>\<open>setAiFirstMove\<close> reads \<^verbatim>\<open>mode\<close> and \<^verbatim>\<open>xIsNext\<close> of the render \<open>c\<close> it was
  created in and sets \<^verbatim>\<open>aiTurn\<close>.
\<close>

definition setAiFirstMove :: "app \<Rightarrow> app \<Rightarrow> app" where
  "setAiFirstMove c s = s\<lparr>aiTurn := (mode c = AI \<and> \<not> xIsNext c)\<rparr>"

definition handleRestart :: "app \<Rightarrow> app" where
  "handleRestart s =
     (case alloc (heap s) emptyBoard of
        (h1, b) \<Rightarrow>
          setAiFirstMove s (s\<lparr>heap := h1, board := b, xIsNext := True, status := noStatus\<rparr>))"

subsection \<open>Effects\<close>

text \<open>
  An effect runs after a render is committed, when one of its dependencies differs from
  the last committed render's. It reads the state variables of that render (\<open>c\<close>) and
  queues updates, which are applied in order for the next render (\<open>s\<close> accumulates
  them). The three effects, in the order the component declares them.
\<close>

definition effectMode :: "app \<Rightarrow> app \<Rightarrow> app" where
  "effectMode c s =
     (case alloc (heap s) emptyBoard of
        (h1, b) \<Rightarrow>
          (setAiFirstMove c (s\<lparr>heap := h1, board := b, xIsNext := True\<rparr>))\<lparr>status := noStatus\<rparr>)"

definition effectStatus :: "app \<Rightarrow> app \<Rightarrow> app" where
  "effectStatus c s =
     (case calculateWinner (deref (heap s) (board c)) of
        Some r \<Rightarrow> s\<lparr>status := r\<rparr>
      | None \<Rightarrow>
          s\<lparr>status := noStatus,
            aiTurn := (mode c = AI \<and> winner (status c) = None \<and>
                       ((xIsNext c \<and> aiMark = MarkX) \<or> (\<not> xIsNext c \<and> aiMark = MarkO)))\<rparr>)"

text \<open>
  The move effect. When \<^verbatim>\<open>computeAIMove\<close> returns an index, the copy with the move
  is built at once and a callback is scheduled that installs it. (An index that is
  \<^verbatim>\<open>undefined\<close> would set a property of the copy and none of its squares.)
\<close>

definition effectAI :: "(nat \<Rightarrow> nat) \<Rightarrow> app \<Rightarrow> app \<Rightarrow> app" where
  "effectAI rnd c s =
     (if mode c = AI \<and> aiTurn c \<and> winner (status c) = None
      then (case computeAIMove (deref (heap s) (board c)) aiMark playerMark rnd of
              Some idx \<Rightarrow>
                if idx \<noteq> - 1
                then (case spread (heap s) (board c) of
                        (h1, boardCopy) \<Rightarrow>
                          s\<lparr>heap := assign h1 boardCopy (nat idx) (Some aiMark),
                            timers := timers s @ [boardCopy]\<rparr>)
                else s
            | None \<Rightarrow>
                (case spread (heap s) (board c) of
                   (h1, boardCopy) \<Rightarrow> s\<lparr>heap := h1, timers := timers s @ [boardCopy]\<rparr>))
      else s)"

text \<open>
  One committed render: the effects whose dependencies changed run in order, all reading
  the same render \<open>c\<close>; then the dependencies of \<open>c\<close> are remembered.
\<close>

definition commit :: "(nat \<Rightarrow> nat) \<Rightarrow> app \<Rightarrow> app" where
  "commit rnd c =
     (let s1 = (if depsMode c = Some (mode c) then c else effectMode c c);
          s2 = (if depsBoard c = Some (board c) then s1 else effectStatus c s1);
          s3 = (if depsAI c = Some (aiTurn c, board c, mode c, winner (status c)) then s2
                else effectAI rnd c s2)
      in s3\<lparr>depsMode := Some (mode c),
            depsBoard := Some (board c),
            depsAI := Some (aiTurn c, board c, mode c, winner (status c))\<rparr>)"

text \<open>
  Updates queued by effects cause a new render, whose effects may run in turn. Three
  rounds reach a render in which no dependency has changed (lemma \<open>settle_stable\<close>):
  only the first effect depends on \<^verbatim>\<open>mode\<close> alone and sets the board, only the second
  depends on the board alone and sets \<^verbatim>\<open>aiTurn\<close> and \<^verbatim>\<open>status\<close>, and the third
  sets no state variable.
\<close>

definition settle :: "(nat \<Rightarrow> nat) \<Rightarrow> app \<Rightarrow> app" where
  "settle rnd s = commit rnd (commit rnd (commit rnd s))"

subsection \<open>Events\<close>

text \<open>
  What can happen to the mounted component: a square is clicked, a mode button is
  pressed, the restart button is pressed (it is rendered only when \<^verbatim>\<open>status.winner\<close>
  is set), or the oldest pending timeout fires, running
  \<^verbatim>\<open>setBoard(boardCopy); setXIsNext((prev) => !prev)\<close>.
\<close>

datatype event = Click nat | SelectMode mode | Restart | Timeout

fun fire :: "(nat \<Rightarrow> nat) \<Rightarrow> app \<Rightarrow> event \<Rightarrow> app" where
  "fire rnd s (Click i) = settle rnd (handleClick i s)"
| "fire rnd s (SelectMode m) = settle rnd (s\<lparr>mode := m\<rparr>)"
| "fire rnd s Restart =
     (if winner (status s) = None then s else settle rnd (handleRestart s))"
| "fire rnd s Timeout =
     (case timers s of
        [] \<Rightarrow> s
      | boardCopy # rest \<Rightarrow>
          settle rnd (s\<lparr>timers := rest, board := boardCopy, xIsNext := \<not> xIsNext s\<rparr>))"

text \<open>The first render (the \<^verbatim>\<open>useState\<close> initial values) and its effects.\<close>

definition mount :: "(nat \<Rightarrow> nat) \<Rightarrow> app" where
  "mount rnd =
     settle rnd
       \<lparr>heap = [emptyBoard], mode = PvP, board = 0, xIsNext = True, aiTurn = False,
        status = noStatus, timers = [], depsMode = None, depsBoard = None, depsAI = None\<rparr>"

definition run :: "(nat \<Rightarrow> nat) \<Rightarrow> event list \<Rightarrow> app" where
  "run rnd evs = foldl (fire rnd) (mount rnd) evs"

text \<open>The squares of the current board, and how many of them hold a mark.\<close>

definition squaresOf :: "app \<Rightarrow> squares" where
  "squaresOf s = deref (heap s) (board s)"

definition marks :: "mark \<Rightarrow> app \<Rightarrow> nat" where
  "marks m s = count_list (squaresOf s) (Some m)"

text \<open>
  A game that has just been reset: the board is a live reference to nine empty squares,
  X is to move, and the status holds no winner.
\<close>

definition reset :: "app \<Rightarrow> bool" where
  "reset s =
     (board s < length (heap s) \<and> squaresOf s = emptyBoard \<and> xIsNext s \<and>
      status s = noStatus)"

text \<open>
  The invariant of a game that has never left mode \<^verbatim>\<open>"pvp"\<close>: no timeout is pending
  and X has as many marks on the board as O, or one more when O is to move.
\<close>

definition alternating :: "app \<Rightarrow> bool" where
  "alternating s =
     (mode s = PvP \<and> depsMode s = Some PvP \<and> timers s = [] \<and> board s < length (heap s) \<and>
      marks MarkX s = marks MarkO s + (if xIsNext s then 0 else 1))"

section \<open>Properties of the rules engine\<close>

subsection \<open>The scan of the triples\<close>

lemma scan_None_iff: "scan sq ls = None \<longleftrightarrow> (\<forall>l\<in>set ls. \<not> filled sq l)"
  by (induction sq ls rule: scan.induct) (auto simp: filled_def split: option.splits)

lemma scan_first:
  "\<forall>l\<in>set pre. \<not> filled sq l \<Longrightarrow> filled sq (a, b, c) \<Longrightarrow>
   \<exists>m. at sq a = Some m \<and>
       scan sq (pre @ (a, b, c) # post) = Some \<lparr>winner = Some (Won m), line = [a, b, c]\<rparr>"
proof (induction pre)
  case Nil
  then show ?case by (auto simp: filled_def)
next
  case (Cons l pre)
  obtain a' b' c' where l: "l = (a', b', c')" by (cases l) auto
  from Cons.prems have "\<not> filled sq (a', b', c')" by (simp add: l)
  then have "scan sq ((a', b', c') # pre @ (a, b, c) # post) = scan sq (pre @ (a, b, c) # post)"
    by (auto simp: filled_def split: option.splits)
  with Cons show ?case by (simp add: l)
qed

lemma scan_Some:
  "scan sq ls = Some r \<Longrightarrow>
   \<exists>pre a b c post m. ls = pre @ (a, b, c) # post \<and> (\<forall>l\<in>set pre. \<not> filled sq l) \<and>
     filled sq (a, b, c) \<and> at sq a = Some m \<and> r = \<lparr>winner = Some (Won m), line = [a, b, c]\<rparr>"
proof (induction sq ls rule: scan.induct)
  case (1 sq)
  then show ?case by simp
next
  case (2 sq a b c ls)
  show ?case
  proof (cases "filled sq (a, b, c)")
    case True
    then obtain m where m: "at sq a = Some m" by (auto simp: filled_def)
    from True m have "at sq b = Some m" "at sq c = Some m" unfolding filled_def by auto
    with m have "scan sq ((a, b, c) # ls) = Some \<lparr>winner = Some (Won m), line = [a, b, c]\<rparr>"
      by simp
    with 2(3) have "r = \<lparr>winner = Some (Won m), line = [a, b, c]\<rparr>" by simp
    with True m show ?thesis by (intro exI[of _ "[]"]) auto
  next
    case False
    then have "scan sq ((a, b, c) # ls) = scan sq ls"
      by (auto simp: filled_def split: option.splits)
    with 2(3) have s: "scan sq ls = Some r" by simp
    have "\<exists>pre a b c post m. ls = pre @ (a, b, c) # post \<and> (\<forall>l\<in>set pre. \<not> filled sq l) \<and>
     filled sq (a, b, c) \<and> at sq a = Some m \<and> r = \<lparr>winner = Some (Won m), line = [a, b, c]\<rparr>"
    proof (cases "at sq a")
      case None
      from 2(1)[OF None s] show ?thesis .
    next
      case (Some m)
      with False have "\<not> (at sq a = at sq b \<and> at sq a = at sq c)" by (auto simp: filled_def)
      from 2(2)[OF Some this s] show ?thesis .
    qed
    then obtain pre a' b' c' post m where
      "ls = pre @ (a', b', c') # post" "\<forall>l\<in>set pre. \<not> filled sq l"
      "filled sq (a', b', c')" "at sq a' = Some m" "r = \<lparr>winner = Some (Won m), line = [a', b', c']\<rparr>"
      by blast
    with False show ?thesis
      by (intro exI[of _ "(a, b, c) # pre"] exI[of _ a'] exI[of _ b'] exI[of _ c'] exI[of _ post] exI[of _ m]) auto
  qed
qed

text \<open>
  Claim C1. On a board of nine squares, \<open>calculateWinner\<close> reports a mark as winner,
  with a triple, exactly when one of the eight triples of \<open>lines\<close> holds three equal
  marks (the mark reported is the one on that triple, and the triple is one of the
  eight); when no triple is filled and no square is empty it reports a tie; when no
  triple is filled and some square is empty it returns \<^verbatim>\<open>null\<close>.
\<close>

theorem calculateWinner_verdict:
  assumes "length sq = 9"
  shows "((\<exists>l\<in>set lines. filled sq l) \<longrightarrow>
            (\<exists>a b c m. (a, b, c) \<in> set lines \<and> filled sq (a, b, c) \<and> at sq a = Some m \<and>
               calculateWinner sq = Some \<lparr>winner = Some (Won m), line = [a, b, c]\<rparr>)) \<and>
         ((\<exists>m l. calculateWinner sq = Some \<lparr>winner = Some (Won m), line = l\<rparr>) \<longrightarrow>
            (\<exists>l\<in>set lines. filled sq l)) \<and>
         (\<not> (\<exists>l\<in>set lines. filled sq l) \<and> None \<notin> set sq \<longrightarrow>
            calculateWinner sq = Some \<lparr>winner = Some Tie, line = []\<rparr>) \<and>
         (\<not> (\<exists>l\<in>set lines. filled sq l) \<and> None \<in> set sq \<longrightarrow>
            calculateWinner sq = None)"
proof -
  have full: "list_all (\<lambda>c. c \<noteq> None) sq \<longleftrightarrow> None \<notin> set sq"
    by (auto simp: list_all_iff) (metis not_None_eq)
  have won: "\<exists>a b c m. (a, b, c) \<in> set lines \<and> filled sq (a, b, c) \<and> at sq a = Some m \<and>
               calculateWinner sq = Some \<lparr>winner = Some (Won m), line = [a, b, c]\<rparr>"
    if "\<exists>l\<in>set lines. filled sq l"
  proof -
    from that have "scan sq lines \<noteq> None" by (simp add: scan_None_iff)
    then obtain r where r: "scan sq lines = Some r" by auto
    from scan_Some[OF r] obtain pre a b c post m where
      "lines = pre @ (a, b, c) # post" "filled sq (a, b, c)" "at sq a = Some m"
      "r = \<lparr>winner = Some (Won m), line = [a, b, c]\<rparr>" by blast
    moreover from this(1) have "(a, b, c) \<in> set lines" by (metis in_set_conv_decomp)
    ultimately show ?thesis using r by (auto simp: calculateWinner_def)
  qed
  have conv: "\<exists>l\<in>set lines. filled sq l"
    if "\<exists>m l. calculateWinner sq = Some \<lparr>winner = Some (Won m), line = l\<rparr>"
  proof (rule ccontr)
    assume "\<not> (\<exists>l\<in>set lines. filled sq l)"
    then have "scan sq lines = None" by (simp add: scan_None_iff)
    with that show False by (auto simp: calculateWinner_def split: if_splits)
  qed
  have tie: "calculateWinner sq = Some \<lparr>winner = Some Tie, line = []\<rparr>"
    if "\<not> (\<exists>l\<in>set lines. filled sq l)" "None \<notin> set sq"
  proof -
    from that(1) have "scan sq lines = None" by (simp add: scan_None_iff)
    with that(2) full show ?thesis by (simp add: calculateWinner_def)
  qed
  have ongoing: "calculateWinner sq = None"
    if "\<not> (\<exists>l\<in>set lines. filled sq l)" "None \<in> set sq"
  proof -
    from that(1) have "scan sq lines = None" by (simp add: scan_None_iff)
    with that(2) full show ?thesis by (auto simp: calculateWinner_def)
  qed
  from won conv tie ongoing show ?thesis by blast
qed

text \<open>
  Claim C9. The triples are scanned in the order of \<open>lines\<close> (the rows, then the
  columns, then the two diagonals), and the result is the first filled triple with the mark on it, whatever
  later triples hold: if \<open>lines\<close> splits into \<open>pre\<close>, a filled triple and \<open>post\<close>, and
  no triple of \<open>pre\<close> is filled, that triple is the one returned.
\<close>

theorem calculateWinner_first_line:
  assumes "lines = pre @ (a, b, c) # post"
    and "\<forall>l\<in>set pre. \<not> filled sq l"
    and "filled sq (a, b, c)"
  shows "lines = [(0, 1, 2), (3, 4, 5), (6, 7, 8), (0, 3, 6), (1, 4, 7), (2, 5, 8),
                  (0, 4, 8), (2, 4, 6)] \<and>
         (\<exists>m. at sq a = Some m \<and>
            calculateWinner sq = Some \<lparr>winner = Some (Won m), line = [a, b, c]\<rparr>)"
proof
  show "lines = [(0, 1, 2), (3, 4, 5), (6, 7, 8), (0, 3, 6), (1, 4, 7), (2, 5, 8),
                 (0, 4, 8), (2, 4, 6)]"
    by (simp add: lines_def)
  from scan_first[OF assms(2,3), of post] assms(1)
  show "\<exists>m. at sq a = Some m \<and>
          calculateWinner sq = Some \<lparr>winner = Some (Won m), line = [a, b, c]\<rparr>"
    by (auto simp: calculateWinner_def)
qed


theorem calculateWinner_verdict_witness:
  "length [Some MarkX, Some MarkO, Some MarkX, Some MarkO, Some MarkX, Some MarkO,
           Some MarkO, Some MarkX, Some MarkO] = 9 \<and>
   calculateWinner [Some MarkX, Some MarkO, Some MarkX, Some MarkO, Some MarkX, Some MarkO,
                    Some MarkO, Some MarkX, Some MarkO]
     = Some \<lparr>winner = Some Tie, line = []\<rparr> \<and>
   None \<in> set [Some MarkX, Some MarkO, None, None, None, None, None, None, None] \<and>
   calculateWinner [Some MarkX, Some MarkO, None, None, None, None, None, None, None] = None \<and>
   filled [Some MarkO, Some MarkO, Some MarkO, Some MarkX, Some MarkX, None, None, None, Some MarkX]
     (0, 1, 2) \<and>
   (\<exists>a b c m. (a, b, c) \<in> set lines \<and>
      calculateWinner
        [Some MarkO, Some MarkO, Some MarkO, Some MarkX, Some MarkX, None, None, None, Some MarkX]
        = Some \<lparr>winner = Some (Won m), line = [a, b, c]\<rparr>)"
proof -
  let ?t = "[Some MarkX, Some MarkO, Some MarkX, Some MarkO, Some MarkX, Some MarkO,
             Some MarkO, Some MarkX, Some MarkO]"
  let ?g = "[Some MarkX, Some MarkO, None, None, None, None, None, None, None]"
  let ?w = "[Some MarkO, Some MarkO, Some MarkO, Some MarkX, Some MarkX, None, None, None,
             Some MarkX]"
  have none_t: "\<not> (\<exists>l\<in>set lines. filled ?t l)" by (simp add: lines_def filled_def at_def)
  have none_g: "\<not> (\<exists>l\<in>set lines. filled ?g l)" by (simp add: lines_def filled_def at_def)
  have some_w: "filled ?w (0, 1, 2)" by (simp add: filled_def at_def)
  then have ex_w: "\<exists>l\<in>set lines. filled ?w l" by (auto simp: lines_def)
  have t: "calculateWinner ?t = Some \<lparr>winner = Some Tie, line = []\<rparr>"
    using calculateWinner_verdict [of ?t] none_t by simp
  have g: "calculateWinner ?g = None"
    using calculateWinner_verdict [of ?g] none_g by simp
  have w: "\<exists>a b c m. (a, b, c) \<in> set lines \<and>
      calculateWinner ?w = Some \<lparr>winner = Some (Won m), line = [a, b, c]\<rparr>"
    using calculateWinner_verdict [of ?w] ex_w by auto
  from t g some_w w show ?thesis by simp
qed

theorem calculateWinner_first_line_witness:
  "filled [Some MarkX, Some MarkO, Some MarkO, Some MarkX, Some MarkX, None, Some MarkX, None,
           Some MarkX] (0, 4, 8) \<and>
   calculateWinner [Some MarkX, Some MarkO, Some MarkO, Some MarkX, Some MarkX, None,
                    Some MarkX, None, Some MarkX]
     = Some \<lparr>winner = Some (Won MarkX), line = [0, 3, 6]\<rparr>"
proof -
  let ?b = "[Some MarkX, Some MarkO, Some MarkO, Some MarkX, Some MarkX, None, Some MarkX, None,
             Some MarkX]"
  have split: "lines = [(0, 1, 2), (3, 4, 5), (6, 7, 8)] @ (0, 3, 6) #
                 [(1, 4, 7), (2, 5, 8), (0, 4, 8), (2, 4, 6)]"
    by (simp add: lines_def)
  have before: "\<forall>l\<in>set [(0, 1, 2), (3, 4, 5), (6, 7, 8)]. \<not> filled ?b l"
    by (simp add: filled_def at_def)
  have here: "filled ?b (0, 3, 6)" by (simp add: filled_def at_def)
  have later: "filled ?b (0, 4, 8)" by (simp add: filled_def at_def)
  from calculateWinner_first_line [OF split before here] have
    "\<exists>m. at ?b 0 = Some m \<and> calculateWinner ?b = Some \<lparr>winner = Some (Won m), line = [0, 3, 6]\<rparr>"
    by (rule conjunct2)
  then have "calculateWinner ?b = Some \<lparr>winner = Some (Won MarkX), line = [0, 3, 6]\<rparr>"
    by (auto simp: at_def)
  with later show ?thesis by simp
qed

subsection \<open>The move of the automated player\<close>

lemma js_set_in_range: "i < length b \<Longrightarrow> js_set b i v = b[i := v]"
  by (simp add: js_set_def)

lemma tryCells_None_iff:
  "tryCells b m cells = None \<longleftrightarrow>
     (\<forall>i\<in>set cells. \<not> (at b i = None \<and> winnerIs (calculateWinner (js_set b i (Some m))) m))"
  by (induction cells) (auto simp: Let_def)

lemma tryCells_Some:
  "tryCells b m cells = Some i \<Longrightarrow>
     i \<in> set cells \<and> at b i = None \<and> winnerIs (calculateWinner (js_set b i (Some m))) m"
  by (induction cells) (auto simp: Let_def split: if_splits)

lemma winsAt_iff:
  "length b = 9 \<Longrightarrow>
   winsAt b m i \<longleftrightarrow>
     (i \<in> set [0..<9] \<and> at b i = None \<and> winnerIs (calculateWinner (js_set b i (Some m))) m)"
  by (auto simp: winsAt_def js_set_in_range)

lemma tryCells_winsAt_None:
  "length b = 9 \<Longrightarrow> tryCells b m [0..<9] = None \<longleftrightarrow> (\<forall>i. \<not> winsAt b m i)"
  unfolding tryCells_None_iff by (auto simp: winsAt_iff)

lemma tryCells_winsAt_Some:
  "length b = 9 \<Longrightarrow> tryCells b m [0..<9] = Some i \<Longrightarrow> winsAt b m i"
  using tryCells_Some[of b m "[0..<9]" i] by (simp add: winsAt_iff)

lemma pickRandom_Some: "pickRandom rnd xs = Some v \<Longrightarrow> \<exists>i\<in>set xs. v = int i"
  by (auto simp: pickRandom_def split: if_splits)

lemma pickRandom_inRange:
  assumes "inRange rnd" "xs \<noteq> []" "length xs \<le> 4"
  shows "\<exists>i\<in>set xs. pickRandom rnd xs = Some (int i)"
proof -
  from assms(2) have "0 < length xs" by simp
  with assms(3) have "length xs = 1 \<or> length xs = 2 \<or> length xs = 3 \<or> length xs = 4"
    by arith
  with assms(1) have "rnd (length xs) < length xs" by (auto simp: inRange_def)
  then show ?thesis by (auto simp: pickRandom_def)
qed

text \<open>
  Claim C2. On a board of nine squares: when some cell wins for the AI's own mark
  (\<open>winsAt b aiM i\<close>: the cell is empty and filling it makes \<open>calculateWinner\<close> report
  that mark), \<open>computeAIMove\<close> returns such a cell; when no cell wins for its own mark
  and some cell wins for the opponent's mark, it returns such a blocking cell. Both hold
  whatever the centre, the corners, the sides and the random draw are: the first two
  passes come before them.
\<close>

theorem computeAIMove_win_then_block:
  assumes "length b = 9"
  shows "((\<exists>i. winsAt b aiM i) \<longrightarrow>
            (\<exists>i. computeAIMove b aiM plM rnd = Some (int i) \<and> winsAt b aiM i)) \<and>
         ((\<forall>i. \<not> winsAt b aiM i) \<and> (\<exists>i. winsAt b plM i) \<longrightarrow>
            (\<exists>i. computeAIMove b aiM plM rnd = Some (int i) \<and> winsAt b plM i))"
proof (intro conjI impI)
  assume "\<exists>i. winsAt b aiM i"
  with assms have "tryCells b aiM [0..<9] \<noteq> None" by (simp add: tryCells_winsAt_None)
  then obtain i where i: "tryCells b aiM [0..<9] = Some i" by auto
  with assms have "winsAt b aiM i" by (rule tryCells_winsAt_Some)
  moreover from i have "computeAIMove b aiM plM rnd = Some (int i)"
    by (simp add: computeAIMove_def)
  ultimately show "\<exists>i. computeAIMove b aiM plM rnd = Some (int i) \<and> winsAt b aiM i" by blast
next
  assume a: "(\<forall>i. \<not> winsAt b aiM i) \<and> (\<exists>i. winsAt b plM i)"
  with assms have none: "tryCells b aiM [0..<9] = None" by (simp add: tryCells_winsAt_None)
  from a assms have "tryCells b plM [0..<9] \<noteq> None" by (simp add: tryCells_winsAt_None)
  then obtain i where i: "tryCells b plM [0..<9] = Some i" by auto
  with assms have "winsAt b plM i" by (rule tryCells_winsAt_Some)
  moreover from none i have "computeAIMove b aiM plM rnd = Some (int i)"
    by (simp add: computeAIMove_def)
  ultimately show "\<exists>i. computeAIMove b aiM plM rnd = Some (int i) \<and> winsAt b plM i" by blast
qed

lemma filter_empty_cells: "i \<in> set (filter (\<lambda>i. at b i = None) cs) \<Longrightarrow> i \<in> set cs \<and> at b i = None"
  by simp

lemma computeAIMove_Some_cell:
  assumes "computeAIMove b aiM plM rnd = Some v" "v \<noteq> - 1"
  shows "\<exists>i. v = int i \<and> i < 9 \<and> at b i = None"
proof (cases "tryCells b aiM [0..<9]")
  case (Some i)
  with assms tryCells_Some[OF Some] show ?thesis by (auto simp: computeAIMove_def)
next
  case None
  note n1 = this
  show ?thesis
  proof (cases "tryCells b plM [0..<9]")
    case (Some i)
    with assms n1 tryCells_Some[OF Some] show ?thesis by (auto simp: computeAIMove_def)
  next
    case None
    note n2 = this
    show ?thesis
    proof (cases "at b 4 = None")
      case True
      with assms n1 n2 show ?thesis by (auto simp: computeAIMove_def)
    next
      case False
      note c = this
      show ?thesis
      proof (cases "filter (\<lambda>i. at b i = None) [0, 2, 6, 8] = []")
        case False
        with assms n1 n2 c have "pickRandom rnd (filter (\<lambda>i. at b i = None) [0, 2, 6, 8]) = Some v"
          by (simp add: computeAIMove_def Let_def)
        from pickRandom_Some[OF this] obtain i where
          "i \<in> set (filter (\<lambda>i. at b i = None) [0, 2, 6, 8])" "v = int i" by blast
        from filter_empty_cells[OF this(1)] this(2) show ?thesis by auto
      next
        case True
        note e = this
        show ?thesis
        proof (cases "filter (\<lambda>i. at b i = None) [1, 3, 5, 7] = []")
          case False
          with assms n1 n2 c e have "pickRandom rnd (filter (\<lambda>i. at b i = None) [1, 3, 5, 7]) = Some v"
            by (simp add: computeAIMove_def Let_def)
          from pickRandom_Some[OF this] obtain i where
            "i \<in> set (filter (\<lambda>i. at b i = None) [1, 3, 5, 7])" "v = int i" by blast
          from filter_empty_cells[OF this(1)] this(2) show ?thesis by auto
        next
          case True
          with assms n1 n2 c e show ?thesis by (simp add: computeAIMove_def Let_def)
        qed
      qed
    qed
  qed
qed

lemma computeAIMove_defined:
  assumes "inRange rnd"
  shows "\<exists>v. computeAIMove b aiM plM rnd = Some v"
proof -
  have len: "length (filter P cs) \<le> 4" if "length cs = 4" for P and cs :: "nat list"
    using length_filter_le[of P cs] that by simp
  have p: "\<exists>v. pickRandom rnd (filter P cs) = Some v"
    if "filter P cs \<noteq> []" "length cs = 4" for P and cs :: "nat list"
    using pickRandom_inRange[OF assms that(1) len[OF that(2)]] by blast
  show ?thesis
    unfolding computeAIMove_def Let_def
    by (auto split: option.splits intro!: p simp del: filter.simps)
qed


lemma cell_index_cases:
  "i < 9 \<Longrightarrow> i = 4 \<or> i \<in> set [0, 2, 6, 8] \<or> i \<in> set [1, 3, 5, 7]" for i :: nat
  by (simp; arith)

lemma no_empty_filter: "filter (\<lambda>i. at b i = None) cs = [] \<longleftrightarrow> (\<forall>i\<in>set cs. at b i \<noteq> None)"
  by (induction cs) auto

lemma computeAIMove_minus_one:
  assumes "computeAIMove b aiM plM rnd = Some (- 1)"
  shows "\<forall>i<9. at b i \<noteq> None"
proof -
  have r: "pickRandom rnd xs \<noteq> Some (- 1)" for xs
    using pickRandom_Some[of rnd xs "- 1"] by auto
  from assms have "at b 4 \<noteq> None \<and> filter (\<lambda>i. at b i = None) [0, 2, 6, 8] = [] \<and>
      filter (\<lambda>i. at b i = None) [1, 3, 5, 7] = []"
    unfolding computeAIMove_def Let_def
    by (auto split: option.splits if_splits simp: r simp del: filter.simps)
  then have "at b 4 \<noteq> None" "\<forall>i\<in>set [0, 2, 6, 8]. at b i \<noteq> None"
      "\<forall>i\<in>set [1, 3, 5, 7]. at b i \<noteq> None"
    using no_empty_filter[of b "[0, 2, 6, 8]"] no_empty_filter[of b "[1, 3, 5, 7]"] by blast+
  then show ?thesis using cell_index_cases by blast
qed

lemma computeAIMove_full:
  assumes "\<forall>i<9. at b i \<noteq> None"
  shows "computeAIMove b aiM plM rnd = Some (- 1)"
proof -
  from assms have t: "tryCells b m [0..<9] = None" for m
    by (simp add: tryCells_None_iff)
  from assms have c: "at b 4 \<noteq> None" by simp
  from assms have "filter (\<lambda>i. at b i = None) [0, 2, 6, 8] = []"
    "filter (\<lambda>i. at b i = None) [1, 3, 5, 7] = []"
    by simp_all
  with t c show ?thesis by (simp add: computeAIMove_def Let_def del: filter.simps)
qed

lemma full_iff: "length b = 9 \<Longrightarrow> (\<forall>i<9. at b i \<noteq> None) \<longleftrightarrow> None \<notin> set b"
  by (auto simp: at_def in_set_conv_nth)

text \<open>
  Claim C5. On a board of nine squares, with a random draw in range, \<open>computeAIMove\<close>
  returns \<open>-1\<close> exactly when no square is empty, and returns a cell index below 9 when
  some square is empty. The value \<open>-1\<close> is an ordinary result, not a failure: the move
  effect of the component, run on a full board, leaves the state as it is.
\<close>

theorem computeAIMove_none_iff_full:
  assumes "length b = 9" and "inRange rnd"
  shows "(computeAIMove b aiM plM rnd = Some (- 1) \<longleftrightarrow> None \<notin> set b) \<and>
         (None \<in> set b \<longrightarrow> (\<exists>i<9. computeAIMove b aiM plM rnd = Some (int i))) \<and>
         (None \<notin> set b \<and> deref (heap s) (board c) = b \<longrightarrow> effectAI rnd c s = s)"
proof (intro conjI impI)
  show "computeAIMove b aiM plM rnd = Some (- 1) \<longleftrightarrow> None \<notin> set b"
    using computeAIMove_minus_one[of b aiM plM rnd] computeAIMove_full[of b aiM plM rnd]
      full_iff[OF assms(1)] by blast
next
  assume e: "None \<in> set b"
  from computeAIMove_defined[OF assms(2)] obtain v where v: "computeAIMove b aiM plM rnd = Some v"
    by blast
  have "v \<noteq> - 1"
  proof
    assume "v = - 1"
    with v have "\<forall>i<9. at b i \<noteq> None" by (simp add: computeAIMove_minus_one)
    with e full_iff[OF assms(1)] show False by simp
  qed
  from computeAIMove_Some_cell[OF v this] v
  show "\<exists>i<9. computeAIMove b aiM plM rnd = Some (int i)" by auto
next
  assume f: "None \<notin> set b \<and> deref (heap s) (board c) = b"
  with full_iff[OF assms(1)] have "\<forall>i<9. at b i \<noteq> None" by simp
  then have "computeAIMove b aiMark playerMark rnd = Some (- 1)" by (rule computeAIMove_full)
  with f show "effectAI rnd c s = s" by (simp add: effectAI_def)
qed

text \<open>
  Claim C10. With a random draw in range, \<open>computeAIMove\<close> returns a number on every
  board, and a number other than \<open>-1\<close> is an index from 0 to 8 whose square on the
  input board is empty.
\<close>

theorem computeAIMove_cell_empty:
  assumes "inRange rnd"
  shows "\<exists>v. computeAIMove b aiM plM rnd = Some v \<and>
              (v \<noteq> - 1 \<longrightarrow> 0 \<le> v \<and> v \<le> 8 \<and> at b (nat v) = None)"
proof -
  from computeAIMove_defined[OF assms] obtain v where v: "computeAIMove b aiM plM rnd = Some v"
    by blast
  have "0 \<le> v \<and> v \<le> 8 \<and> at b (nat v) = None" if "v \<noteq> - 1"
    using computeAIMove_Some_cell[OF v that] by auto
  with v show ?thesis by blast
qed

lemma cells9: "[0..<9] = [0, 1, 2, 3, 4, 5, 6, 7, 8]"
  by code_simp


theorem computeAIMove_win_then_block_witness:
  "length [Some MarkX, Some MarkX, None, Some MarkO, Some MarkO, None, None, None, None] = 9 \<and>
   winsAt [Some MarkX, Some MarkX, None, Some MarkO, Some MarkO, None, None, None, None] MarkO 5 \<and>
   (\<exists>i. computeAIMove [Some MarkX, Some MarkX, None, Some MarkO, Some MarkO, None, None, None, None]
          MarkO MarkX (\<lambda>n. 0) = Some (int i) \<and>
        winsAt [Some MarkX, Some MarkX, None, Some MarkO, Some MarkO, None, None, None, None]
          MarkO i) \<and>
   winsAt [Some MarkX, Some MarkX, None, Some MarkO, None, None, None, None, None] MarkX 2 \<and>
   (\<exists>i. computeAIMove [Some MarkX, Some MarkX, None, Some MarkO, None, None, None, None, None]
          MarkO MarkX (\<lambda>n. 0) = Some (int i) \<and>
        winsAt [Some MarkX, Some MarkX, None, Some MarkO, None, None, None, None, None]
          MarkX i)"
proof -
  let ?w = "[Some MarkX, Some MarkX, None, Some MarkO, Some MarkO, None, None, None, None]"
  let ?k = "[Some MarkX, Some MarkX, None, Some MarkO, None, None, None, None, None]"
  have win: "winsAt ?w MarkO 5"
    by (simp add: winsAt_def at_def winnerIs_def calculateWinner_def lines_def)
  have block: "winsAt ?k MarkX 2"
    by (simp add: winsAt_def at_def winnerIs_def calculateWinner_def lines_def)
  have "tryCells ?k MarkO [0..<9] = None"
    by (simp add: cells9 at_def js_set_def winnerIs_def calculateWinner_def lines_def)
  then have nowin: "\<forall>i. \<not> winsAt ?k MarkO i"
    by (simp add: tryCells_winsAt_None)
  have lw: "length ?w = 9" and lk: "length ?k = 9" by simp_all
  have a: "\<exists>i. computeAIMove ?w MarkO MarkX (\<lambda>n. 0) = Some (int i) \<and> winsAt ?w MarkO i"
    using computeAIMove_win_then_block [OF lw, of MarkO MarkX "\<lambda>n. 0"] win by blast
  have b: "\<exists>i. computeAIMove ?k MarkO MarkX (\<lambda>n. 0) = Some (int i) \<and> winsAt ?k MarkX i"
    using computeAIMove_win_then_block [OF lk, of MarkO MarkX "\<lambda>n. 0"] nowin block by blast
  from win block a b show ?thesis by simp
qed

theorem computeAIMove_none_iff_full_witness:
  "length [Some MarkX, Some MarkO, Some MarkX, Some MarkO, Some MarkX, Some MarkO,
           Some MarkO, Some MarkX, Some MarkO] = 9 \<and>
   inRange (\<lambda>n. 0) \<and>
   computeAIMove [Some MarkX, Some MarkO, Some MarkX, Some MarkO, Some MarkX, Some MarkO,
                  Some MarkO, Some MarkX, Some MarkO] MarkO MarkX (\<lambda>n. 0) = Some (- 1) \<and>
   None \<in> set [Some MarkX, Some MarkO, Some MarkX, Some MarkO, Some MarkX, Some MarkO,
               Some MarkO, Some MarkX, None] \<and>
   (\<exists>i<9. computeAIMove [Some MarkX, Some MarkO, Some MarkX, Some MarkO, Some MarkX, Some MarkO,
                  Some MarkO, Some MarkX, None] MarkO MarkX (\<lambda>n. 0) = Some (int i)) \<and>
   effectAI (\<lambda>n. 0)
     \<lparr>heap = [[Some MarkX, Some MarkO, Some MarkX, Some MarkO, Some MarkX, Some MarkO,
               Some MarkO, Some MarkX, Some MarkO]],
      mode = AI, board = 0, xIsNext = False, aiTurn = True, status = noStatus, timers = [],
      depsMode = None, depsBoard = None, depsAI = None\<rparr>
     \<lparr>heap = [[Some MarkX, Some MarkO, Some MarkX, Some MarkO, Some MarkX, Some MarkO,
               Some MarkO, Some MarkX, Some MarkO]],
      mode = AI, board = 0, xIsNext = False, aiTurn = True, status = noStatus, timers = [],
      depsMode = None, depsBoard = None, depsAI = None\<rparr>
   = \<lparr>heap = [[Some MarkX, Some MarkO, Some MarkX, Some MarkO, Some MarkX, Some MarkO,
               Some MarkO, Some MarkX, Some MarkO]],
      mode = AI, board = 0, xIsNext = False, aiTurn = True, status = noStatus, timers = [],
      depsMode = None, depsBoard = None, depsAI = None\<rparr>"
proof -
  let ?s = "\<lparr>heap = [[Some MarkX, Some MarkO, Some MarkX, Some MarkO, Some MarkX, Some MarkO,
               Some MarkO, Some MarkX, Some MarkO]],
      mode = AI, board = 0, xIsNext = False, aiTurn = True, status = noStatus, timers = [],
      depsMode = None, depsBoard = None, depsAI = None\<rparr>"
  let ?t = "[Some MarkX, Some MarkO, Some MarkX, Some MarkO, Some MarkX, Some MarkO,
             Some MarkO, Some MarkX, Some MarkO]"
  let ?g = "[Some MarkX, Some MarkO, Some MarkX, Some MarkO, Some MarkX, Some MarkO,
             Some MarkO, Some MarkX, None]"
  have r: "inRange (\<lambda>n. 0)" by (simp add: inRange_def)
  have lt: "length ?t = 9" and lg: "length ?g = 9" by simp_all
  have full: "None \<notin> set ?t" by simp
  have gap: "None \<in> set ?g" by simp
  have a: "computeAIMove ?t MarkO MarkX (\<lambda>n. 0) = Some (- 1)"
    using computeAIMove_none_iff_full [OF lt r, of MarkO MarkX] full by blast
  have b: "\<exists>i<9. computeAIMove ?g MarkO MarkX (\<lambda>n. 0) = Some (int i)"
    using computeAIMove_none_iff_full [OF lg r, of MarkO MarkX] gap by blast
  have d: "deref (heap ?s) (board ?s) = ?t" by (simp add: deref_def)
  have c: "effectAI (\<lambda>n. 0) ?s ?s = ?s"
    using computeAIMove_none_iff_full [OF lt r, of MarkO MarkX ?s ?s] full d by blast
  from r a b c show ?thesis by simp
qed

theorem computeAIMove_cell_empty_witness:
  "inRange (\<lambda>n. n - 1) \<and>
   computeAIMove [None, None, None, None, Some MarkX, None, None, None, None]
     MarkO MarkX (\<lambda>n. n - 1) = Some 8 \<and>
   at [None, None, None, None, Some MarkX, None, None, None, None] 8 = None"
proof -
  let ?b = "[None, None, None, None, Some MarkX, None, None, None, None]"
  have r: "inRange (\<lambda>n. n - 1)" by (simp add: inRange_def)
  have v: "computeAIMove ?b MarkO MarkX (\<lambda>n. n - 1) = Some 8"
    by (simp add: computeAIMove_def cells9 at_def js_set_def winnerIs_def calculateWinner_def
        lines_def pickRandom_def)
  from computeAIMove_cell_empty [OF r, of ?b MarkO MarkX] v
  have "at ?b (nat 8) = None" by simp
  with r v show ?thesis by simp
qed

text \<open>
  Claim C3, as the code has it. On the board \<open>[X, X, _, O, O, _, _, _, _]\<close> with the AI
  playing O against X, \<open>computeAIMove\<close> returns 5 for every random draw. The cell is
  found by the first pass (try to win): 5 completes O's own row \<open>[3, 4, 5]\<close>. It is not
  a blocking cell (X's threat is at cell 2), and cell 8 does not win for O.
\<close>

theorem computeAIMove_example:
  "computeAIMove [Some MarkX, Some MarkX, None, Some MarkO, Some MarkO, None, None, None, None]
     MarkO MarkX rnd = Some 5 \<and>
   tryCells [Some MarkX, Some MarkX, None, Some MarkO, Some MarkO, None, None, None, None]
     MarkO [0..<9] = Some 5 \<and>
   winsAt [Some MarkX, Some MarkX, None, Some MarkO, Some MarkO, None, None, None, None] MarkO 5 \<and>
   \<not> winsAt [Some MarkX, Some MarkX, None, Some MarkO, Some MarkO, None, None, None, None] MarkX 5 \<and>
   winsAt [Some MarkX, Some MarkX, None, Some MarkO, Some MarkO, None, None, None, None] MarkX 2 \<and>
   \<not> winsAt [Some MarkX, Some MarkX, None, Some MarkO, Some MarkO, None, None, None, None] MarkO 8"
  by (simp add: computeAIMove_def cells9 winsAt_def at_def js_set_def winnerIs_def
      calculateWinner_def lines_def)

text \<open>
  The reading of the example in which cell 5 blocks a win of X and cell 8 is a win of O
  fails on that board.
\<close>

theorem computeAIMove_example_counterexample:
  "\<not> (computeAIMove [Some MarkX, Some MarkX, None, Some MarkO, Some MarkO, None, None, None, None]
        MarkO MarkX (\<lambda>n. 0) = Some 5 \<and>
      winsAt [Some MarkX, Some MarkX, None, Some MarkO, Some MarkO, None, None, None, None] MarkX 5 \<and>
      winsAt [Some MarkX, Some MarkX, None, Some MarkO, Some MarkO, None, None, None, None] MarkO 8)"
  by (simp add: winsAt_def at_def winnerIs_def calculateWinner_def lines_def)

subsection \<open>The store\<close>

lemma deref_append: "a < length h \<Longrightarrow> deref (h @ ext) a = deref h a"
  by (simp add: deref_def nth_append)

lemma deref_fresh: "deref (h @ [sq]) (length h) = sq"
  by (simp add: deref_def)

lemma spread_eq: "spread h a = (h @ [deref h a], length h)"
  by (simp add: spread_def alloc_def)

lemma assign_fresh: "assign (h @ [sq]) (length h) i v = h @ [js_set sq i v]"
  by (simp add: assign_def deref_fresh)

lemma tryCellsH_frame:
  "a < length h \<Longrightarrow>
   \<exists>ext. snd (tryCellsH h a m cells) = h @ ext \<and>
         fst (tryCellsH h a m cells) = tryCells (deref h a) m cells"
proof (induction cells arbitrary: h)
  case Nil
  then show ?case by simp
next
  case (Cons i cells)
  show ?case
  proof (cases "at (deref h a) i = None")
    case False
    then have "tryCellsH h a m (i # cells) = tryCellsH h a m cells"
      "tryCells (deref h a) m (i # cells) = tryCells (deref h a) m cells"
      by auto
    with Cons.IH[OF Cons.prems] show ?thesis by simp
  next
    case True
    let ?copy = "js_set (deref h a) i (Some m)"
    let ?h2 = "h @ [?copy]"
    show ?thesis
    proof (cases "winnerIs (calculateWinner ?copy) m")
      case True
      with \<open>at (deref h a) i = None\<close> show ?thesis
        by (simp add: spread_eq assign_fresh deref_fresh)
    next
      case False
      from Cons.prems have a2: "a < length ?h2" by simp
      from Cons.IH[OF a2] obtain ext where
        e: "snd (tryCellsH ?h2 a m cells) = ?h2 @ ext"
           "fst (tryCellsH ?h2 a m cells) = tryCells (deref ?h2 a) m cells" by blast
      from Cons.prems have d: "deref ?h2 a = deref h a" by (rule deref_append)
      from False \<open>at (deref h a) i = None\<close>
      have step: "tryCellsH h a m (i # cells) = tryCellsH ?h2 a m cells"
        "tryCells (deref h a) m (i # cells) = tryCells (deref h a) m cells"
        by (simp_all add: spread_eq assign_fresh deref_fresh)
      from e d step show ?thesis by (intro exI[of _ "?copy # ext"]) simp
    qed
  qed
qed

text \<open>
  Claim C6. \<open>computeAIMoveH\<close> is \<open>computeAIMove\<close> on the store: the board is a
  reference \<open>a\<close>, every \<^verbatim>\<open>[...board]\<close> allocates, every \<^verbatim>\<open>copy[i] = mark\<close> writes to
  the store. After the call the array at \<open>a\<close> is what it was before, as is every other
  array that existed before the call (the store has only grown), and the value returned
  is that of \<open>computeAIMove\<close> on the squares of the board.
\<close>

theorem computeAIMove_keeps_board:
  assumes "a < length h"
  shows "deref (snd (computeAIMoveH h a aiM plM rnd)) a = deref h a \<and>
         take (length h) (snd (computeAIMoveH h a aiM plM rnd)) = h \<and>
         fst (computeAIMoveH h a aiM plM rnd) = computeAIMove (deref h a) aiM plM rnd"
proof -
  obtain r1 h1 where t1: "tryCellsH h a aiM [0..<9] = (r1, h1)" by (cases "tryCellsH h a aiM [0..<9]")
  from tryCellsH_frame[OF assms, of aiM "[0..<9]"] t1 obtain e1 where
    h1: "h1 = h @ e1" and r1: "r1 = tryCells (deref h a) aiM [0..<9]" by auto
  from assms h1 have a1: "a < length h1" by simp
  from assms h1 have d1: "deref h1 a = deref h a" by (simp add: deref_append)
  obtain r2 h2 where t2: "tryCellsH h1 a plM [0..<9] = (r2, h2)" by (cases "tryCellsH h1 a plM [0..<9]")
  from tryCellsH_frame[OF a1, of plM "[0..<9]"] t2 d1 obtain e2 where
    h2: "h2 = h1 @ e2" and r2: "r2 = tryCells (deref h a) plM [0..<9]" by auto
  from assms h1 h2 have d2: "deref h2 a = deref h a" by (simp add: deref_append)
  have res: "computeAIMoveH h a aiM plM rnd =
      (computeAIMove (deref h a) aiM plM rnd, if r1 = None then h2 else h1)"
  proof (cases r1)
    case (Some i)
    with r1 have p1: "tryCells (deref h a) aiM [0..<9] = Some i" by simp
    from t1 Some have "tryCellsH h a aiM [0..<9] = (Some i, h1)" by simp
    with p1 Some show ?thesis by (simp add: computeAIMoveH_def computeAIMove_def)
  next
    case None
    with r1 have p1: "tryCells (deref h a) aiM [0..<9] = None" by simp
    from t1 None have q1: "tryCellsH h a aiM [0..<9] = (None, h1)" by simp
    show ?thesis
    proof (cases r2)
      case (Some i)
      with r2 have p2: "tryCells (deref h a) plM [0..<9] = Some i" by simp
      from t2 Some have "tryCellsH h1 a plM [0..<9] = (Some i, h2)" by simp
      with p1 q1 p2 None show ?thesis by (simp add: computeAIMoveH_def computeAIMove_def)
    next
      case None
      with r2 have p2: "tryCells (deref h a) plM [0..<9] = None" by simp
      from t2 None have "tryCellsH h1 a plM [0..<9] = (None, h2)" by simp
      with p1 q1 p2 d2 \<open>r1 = None\<close> show ?thesis
        by (simp add: computeAIMoveH_def computeAIMove_def Let_def del: filter.simps)
    qed
  qed
  from res h1 h2 d1 d2 show ?thesis by (simp split: if_splits)
qed

theorem computeAIMove_keeps_board_witness:
  "(0::nat) < length [[Some MarkX, Some MarkX, None, Some MarkO, Some MarkO, None, None, None, None]] \<and>
   computeAIMoveH [[Some MarkX, Some MarkX, None, Some MarkO, Some MarkO, None, None, None, None]]
     0 MarkO MarkX (\<lambda>n. 0)
   = (Some 5,
      [[Some MarkX, Some MarkX, None, Some MarkO, Some MarkO, None, None, None, None],
       [Some MarkX, Some MarkX, Some MarkO, Some MarkO, Some MarkO, None, None, None, None],
       [Some MarkX, Some MarkX, None, Some MarkO, Some MarkO, Some MarkO, None, None, None]]) \<and>
   deref (snd (computeAIMoveH
       [[Some MarkX, Some MarkX, None, Some MarkO, Some MarkO, None, None, None, None]]
       0 MarkO MarkX (\<lambda>n. 0))) 0
   = [Some MarkX, Some MarkX, None, Some MarkO, Some MarkO, None, None, None, None]"
proof -
  let ?h = "[[Some MarkX, Some MarkX, None, Some MarkO, Some MarkO, None, None, None, None]]"
  have a: "(0::nat) < length ?h" by simp
  have d: "deref ?h 0 = [Some MarkX, Some MarkX, None, Some MarkO, Some MarkO, None, None, None, None]"
    by (simp add: deref_def)
  have r: "computeAIMoveH ?h 0 MarkO MarkX (\<lambda>n. 0)
   = (Some 5,
      [[Some MarkX, Some MarkX, None, Some MarkO, Some MarkO, None, None, None, None],
       [Some MarkX, Some MarkX, Some MarkO, Some MarkO, Some MarkO, None, None, None, None],
       [Some MarkX, Some MarkX, None, Some MarkO, Some MarkO, Some MarkO, None, None, None]])"
    by code_simp
  from computeAIMove_keeps_board [OF a, of MarkO MarkX "\<lambda>n. 0"] d r show ?thesis by simp
qed

section \<open>Properties of the component\<close>

subsection \<open>Clicks\<close>

lemma at_js_set: "at (js_set b i v) j = (if j = i then v else at b j)"
  by (auto simp: at_def js_set_def nth_append)

lemma handleClick_ignored:
  "winner (status s) \<noteq> None \<or> at (squaresOf s) i \<noteq> None \<or> (mode s = AI \<and> \<not> xIsNext s)
   \<Longrightarrow> handleClick i s = s"
  by (auto simp: handleClick_def squaresOf_def)

lemma handleClick_accepted:
  assumes "winner (status s) = None" "at (squaresOf s) i = None" "mode s = PvP \<or> xIsNext s"
  shows "handleClick i s =
    s\<lparr>heap := heap s @ [js_set (squaresOf s) i (Some (if xIsNext s then MarkX else MarkO))],
      board := length (heap s), xIsNext := \<not> xIsNext s, aiTurn := False\<rparr>"
  using assms by (cases "mode s") (auto simp: handleClick_def squaresOf_def spread_eq assign_fresh)

text \<open>
  Claim C4, as the code has it. The board of the state is a live reference. A click is
  ignored, leaving the whole state (board and turn included) as it was, when
  \<^verbatim>\<open>status.winner\<close> is set (won or tie), when the square is not empty, and also when
  the mode is \<^verbatim>\<open>"ai"\<close> and it is not X's turn. Otherwise the click installs a new
  array, allocated by the click, that differs from the old board in exactly the clicked
  square, which now holds the mark of the player to move; the turn passes to the other
  mark; and the old board, like every other array of the store, is not written to.
\<close>

theorem handleClick_move:
  assumes "board s < length (heap s)"
  shows "(winner (status s) \<noteq> None \<or> at (squaresOf s) i \<noteq> None \<or>
            (mode s = AI \<and> \<not> xIsNext s) \<longrightarrow> handleClick i s = s) \<and>
         (winner (status s) = None \<and> at (squaresOf s) i = None \<and> (mode s = PvP \<or> xIsNext s) \<longrightarrow>
            board (handleClick i s) = length (heap s) \<and>
            squaresOf (handleClick i s) =
              js_set (squaresOf s) i (Some (if xIsNext s then MarkX else MarkO)) \<and>
            (\<forall>j. at (squaresOf (handleClick i s)) j =
                   (if j = i then Some (if xIsNext s then MarkX else MarkO)
                    else at (squaresOf s) j)) \<and>
            take (length (heap s)) (heap (handleClick i s)) = heap s \<and>
            deref (heap (handleClick i s)) (board s) = squaresOf s \<and>
            xIsNext (handleClick i s) = (\<not> xIsNext s))"
proof (intro conjI impI)
  assume "winner (status s) \<noteq> None \<or> at (squaresOf s) i \<noteq> None \<or>
            (mode s = AI \<and> \<not> xIsNext s)"
  then show "handleClick i s = s" by (rule handleClick_ignored)
next
  assume a: "winner (status s) = None \<and> at (squaresOf s) i = None \<and> (mode s = PvP \<or> xIsNext s)"
  let ?mk = "Some (if xIsNext s then MarkX else MarkO)"
  from a have e: "handleClick i s =
    s\<lparr>heap := heap s @ [js_set (squaresOf s) i ?mk],
      board := length (heap s), xIsNext := \<not> xIsNext s, aiTurn := False\<rparr>"
    by (intro handleClick_accepted) simp_all
  show "board (handleClick i s) = length (heap s)" by (simp add: e)
  show sq: "squaresOf (handleClick i s) = js_set (squaresOf s) i ?mk"
    by (simp add: e squaresOf_def deref_fresh)
  show "\<forall>j. at (squaresOf (handleClick i s)) j = (if j = i then ?mk else at (squaresOf s) j)"
    by (simp only: sq at_js_set) simp
  show "take (length (heap s)) (heap (handleClick i s)) = heap s" by (simp add: e)
  show "deref (heap (handleClick i s)) (board s) = squaresOf s"
    using assms by (simp add: e squaresOf_def deref_append)
  show "xIsNext (handleClick i s) = (\<not> xIsNext s)" by (simp add: e)
qed

theorem handleClick_move_witness:
  "board (run (\<lambda>n. 0) []) < length (heap (run (\<lambda>n. 0) [])) \<and>
   winner (status (run (\<lambda>n. 0) [])) = None \<and>
   at (squaresOf (run (\<lambda>n. 0) [])) 0 = None \<and>
   squaresOf (handleClick 0 (run (\<lambda>n. 0) []))
     = [Some MarkX, None, None, None, None, None, None, None, None] \<and>
   deref (heap (handleClick 0 (run (\<lambda>n. 0) []))) (board (run (\<lambda>n. 0) []))
     = [None, None, None, None, None, None, None, None, None] \<and>
   xIsNext (handleClick 0 (run (\<lambda>n. 0) [])) = False \<and>
   winner (status (run (\<lambda>n. 0) [Click 0, Click 3, Click 1, Click 4, Click 2]))
     = Some (Won MarkX) \<and>
   handleClick 8 (run (\<lambda>n. 0) [Click 0, Click 3, Click 1, Click 4, Click 2])
     = run (\<lambda>n. 0) [Click 0, Click 3, Click 1, Click 4, Click 2]"
proof -
  let ?s = "run (\<lambda>n. 0) []"
  let ?w = "run (\<lambda>n. 0) [Click 0, Click 3, Click 1, Click 4, Click 2]"
  have ref: "board ?s < length (heap ?s)" by code_simp
  have pre: "winner (status ?s) = None \<and> at (squaresOf ?s) 0 = None \<and> (mode ?s = PvP \<or> xIsNext ?s)"
    by code_simp
  have old: "squaresOf ?s = [None, None, None, None, None, None, None, None, None]"
    by code_simp
  have turn: "xIsNext ?s" by code_simp
  from handleClick_move [OF ref, of 0] pre
  have post: "squaresOf (handleClick 0 ?s) = js_set (squaresOf ?s) 0 (Some (if xIsNext ?s then MarkX else MarkO))"
    "deref (heap (handleClick 0 ?s)) (board ?s) = squaresOf ?s"
    "xIsNext (handleClick 0 ?s) = (\<not> xIsNext ?s)"
    by blast+
  have refw: "board ?w < length (heap ?w)" by code_simp
  have won: "winner (status ?w) = Some (Won MarkX)" by code_simp
  with handleClick_move [OF refw, of 8] have ign: "handleClick 8 ?w = ?w" by simp
  from ref pre post old turn won ign show ?thesis by (simp add: js_set_def)
qed

text \<open>
  The claim without the third case fails in a state the component reaches: in mode
  \<^verbatim>\<open>"ai"\<close>, after the human has played the centre and before the automated player's
  move is installed, no winner is set and square 0 is empty, yet a click on square 0
  changes nothing.
\<close>

theorem handleClick_move_counterexample:
  "mode (run (\<lambda>n. 0) [SelectMode AI, Click 4]) = AI \<and>
   \<not> xIsNext (run (\<lambda>n. 0) [SelectMode AI, Click 4]) \<and>
   winner (status (run (\<lambda>n. 0) [SelectMode AI, Click 4])) = None \<and>
   at (squaresOf (run (\<lambda>n. 0) [SelectMode AI, Click 4])) 0 = None \<and>
   handleClick 0 (run (\<lambda>n. 0) [SelectMode AI, Click 4]) = run (\<lambda>n. 0) [SelectMode AI, Click 4] \<and>
   at (squaresOf (handleClick 0 (run (\<lambda>n. 0) [SelectMode AI, Click 4]))) 0 = None"
  by code_simp

subsection \<open>Effects reach a stable render\<close>

lemma effectMode_fields:
  "mode (effectMode c s) = mode s" "timers (effectMode c s) = timers s"
  "heap (effectMode c s) = heap s @ [emptyBoard]" "board (effectMode c s) = length (heap s)"
  "xIsNext (effectMode c s)" "status (effectMode c s) = noStatus"
  by (simp_all add: effectMode_def alloc_def setAiFirstMove_def)

lemma effectStatus_fields:
  "mode (effectStatus c s) = mode s" "board (effectStatus c s) = board s"
  "heap (effectStatus c s) = heap s" "xIsNext (effectStatus c s) = xIsNext s"
  "timers (effectStatus c s) = timers s"
  by (simp_all add: effectStatus_def split: option.splits)

lemma effectAI_fields:
  "mode (effectAI rnd c s) = mode s" "board (effectAI rnd c s) = board s"
  "xIsNext (effectAI rnd c s) = xIsNext s" "aiTurn (effectAI rnd c s) = aiTurn s"
  "status (effectAI rnd c s) = status s"
  by (simp_all add: effectAI_def spread_eq split: option.splits)

lemma effectAI_heap: "\<exists>ext. heap (effectAI rnd c s) = heap s @ ext"
  by (simp add: effectAI_def spread_eq assign_fresh split: option.splits)

lemma commit_deps:
  "depsMode (commit rnd s) = Some (mode s)"
  "depsBoard (commit rnd s) = Some (board s)"
  "depsAI (commit rnd s) = Some (aiTurn s, board s, mode s, winner (status s))"
  by (simp_all add: commit_def Let_def)

lemma commit_mode: "mode (commit rnd s) = mode s"
  by (simp add: commit_def Let_def effectMode_fields effectStatus_fields effectAI_fields)

lemma commit_board: "depsMode s = Some (mode s) \<Longrightarrow> board (commit rnd s) = board s"
  by (simp add: commit_def Let_def effectStatus_fields effectAI_fields)

lemma commit_vars:
  assumes "depsMode s = Some (mode s)" "depsBoard s = Some (board s)"
  shows "aiTurn (commit rnd s) = aiTurn s" "status (commit rnd s) = status s"
    "xIsNext (commit rnd s) = xIsNext s"
  using assms by (simp_all add: commit_def Let_def effectAI_fields)

lemma commit_idle:
  assumes "depsMode s = Some (mode s)" "depsBoard s = Some (board s)"
    "depsAI s = Some (aiTurn s, board s, mode s, winner (status s))"
  shows "commit rnd s = s"
  using assms by (simp add: commit_def)

lemma settle_stable: "commit rnd' (settle rnd s) = settle rnd s"
proof -
  let ?s1 = "commit rnd s"
  let ?s2 = "commit rnd ?s1"
  let ?s3 = "commit rnd ?s2"
  have m1: "depsMode ?s1 = Some (mode ?s1)" by (simp add: commit_deps commit_mode)
  have m2: "depsMode ?s2 = Some (mode ?s2)" by (simp add: commit_deps commit_mode)
  have b2: "depsBoard ?s2 = Some (board ?s2)" by (simp add: commit_deps(2) commit_board[OF m1])
  have "depsMode ?s3 = Some (mode ?s3)" by (simp add: commit_deps commit_mode)
  moreover have "depsBoard ?s3 = Some (board ?s3)"
    by (simp add: commit_deps(2) commit_board[OF m2])
  moreover have "depsAI ?s3 = Some (aiTurn ?s3, board ?s3, mode ?s3, winner (status ?s3))"
    by (simp add: commit_deps(3) commit_board[OF m2] commit_vars[OF m2 b2] commit_mode)
  ultimately have "commit rnd' ?s3 = ?s3" by (rule commit_idle)
  then show ?thesis by (simp add: settle_def)
qed

subsection \<open>Restart\<close>

lemma calculateWinner_emptyBoard: "calculateWinner emptyBoard = None"
  by (simp add: calculateWinner_def emptyBoard_def lines_def at_def numeral_eq_Suc)

lemma commit_reset:
  assumes "reset s"
  shows "reset (commit rnd s)"
proof -
  let ?s1 = "if depsMode s = Some (mode s) then s else effectMode s s"
  let ?s2 = "if depsBoard s = Some (board s) then ?s1 else effectStatus s ?s1"
  let ?s3 = "if depsAI s = Some (aiTurn s, board s, mode s, winner (status s)) then ?s2
             else effectAI rnd s ?s2"
  from assms have r1: "reset ?s1"
    by (simp add: reset_def squaresOf_def effectMode_fields deref_fresh)
  from assms have old: "deref (heap ?s1) (board s) = emptyBoard"
    by (simp add: reset_def squaresOf_def effectMode_fields deref_append)
  then have st: "effectStatus s ?s1 = ?s1\<lparr>status := noStatus, aiTurn := aiTurn (effectStatus s ?s1)\<rparr>"
    by (simp add: effectStatus_def calculateWinner_emptyBoard)
  have r2: "reset ?s2"
  proof (cases "depsBoard s = Some (board s)")
    case True
    with r1 show ?thesis by simp
  next
    case False
    from r1 have "reset (?s1\<lparr>status := noStatus, aiTurn := aiTurn (effectStatus s ?s1)\<rparr>)"
      by (simp add: reset_def squaresOf_def)
    with st False show ?thesis by simp
  qed
  have r3: "reset ?s3"
  proof (cases "depsAI s = Some (aiTurn s, board s, mode s, winner (status s))")
    case True
    with r2 show ?thesis by simp
  next
    case False
    from effectAI_heap obtain ext where "heap (effectAI rnd s ?s2) = heap ?s2 @ ext" by blast
    with r2 have "reset (effectAI rnd s ?s2)"
      by (simp add: reset_def squaresOf_def effectAI_fields deref_append)
    with False show ?thesis by simp
  qed
  have "commit rnd s = ?s3\<lparr>depsMode := Some (mode s), depsBoard := Some (board s),
      depsAI := Some (aiTurn s, board s, mode s, winner (status s))\<rparr>"
    by (simp add: commit_def Let_def)
  with r3 show ?thesis by (simp add: reset_def squaresOf_def)
qed

lemma handleRestart_reset: "reset (handleRestart s)"
  by (simp add: reset_def handleRestart_def alloc_def setAiFirstMove_def squaresOf_def deref_fresh)

text \<open>
  Claim C7. From every state, \<open>handleRestart\<close> makes the board nine empty squares,
  gives the turn to X and sets the status to no winner and no line; and this is still so
  when the effects that the restart triggers have run.
\<close>

theorem handleRestart_resets:
  "squaresOf (handleRestart s) = replicate 9 None \<and>
   xIsNext (handleRestart s) \<and>
   status (handleRestart s) = \<lparr>winner = None, line = []\<rparr> \<and>
   squaresOf (settle rnd (handleRestart s)) = replicate 9 None \<and>
   xIsNext (settle rnd (handleRestart s)) \<and>
   status (settle rnd (handleRestart s)) = \<lparr>winner = None, line = []\<rparr>"
proof -
  have a: "reset (handleRestart s)" by (rule handleRestart_reset)
  then have "reset (settle rnd (handleRestart s))"
    unfolding settle_def by (intro commit_reset)
  with a show ?thesis by (simp add: reset_def emptyBoard_def noStatus_def)
qed

subsection \<open>Turn alternation\<close>

text \<open>
  As long as mode \<^verbatim>\<open>"ai"\<close> is never selected, every event keeps the marks alternating.
\<close>

lemma count_list_update:
  "i < length b \<Longrightarrow> b ! i = None \<Longrightarrow>
   count_list (b[i := Some m]) (Some m') = count_list b (Some m') + (if m = m' then 1 else 0)"
proof (induction b arbitrary: i)
  case Nil
  then show ?case by simp
next
  case (Cons c b)
  then show ?case by (cases i) auto
qed

lemma count_list_append: "count_list (xs @ ys) x = count_list xs x + count_list ys x"
  by (induction xs) auto

lemma count_list_replicate_None: "count_list (replicate k None) (Some m) = 0"
  by (induction k) auto

lemma count_js_set:
  "at b i = None \<Longrightarrow>
   count_list (js_set b i (Some m)) (Some m') = count_list b (Some m') + (if m = m' then 1 else 0)"
  by (auto simp: js_set_def at_def count_list_update count_list_append count_list_replicate_None)

lemma alternating_click:
  assumes "alternating s"
  shows "alternating (handleClick i s)"
proof (cases "winner (status s) \<noteq> None \<or> at (squaresOf s) i \<noteq> None \<or>
    (mode s = AI \<and> \<not> xIsNext s)")
  case True
  then have "handleClick i s = s" by (rule handleClick_ignored)
  with assms show ?thesis by simp
next
  case False
  then have e: "handleClick i s =
    s\<lparr>heap := heap s @ [js_set (squaresOf s) i (Some (if xIsNext s then MarkX else MarkO))],
      board := length (heap s), xIsNext := \<not> xIsNext s, aiTurn := False\<rparr>"
    using assms by (intro handleClick_accepted) (auto simp: alternating_def)
  from False have "at (squaresOf s) i = None" by simp
  with assms show ?thesis
    by (simp add: e alternating_def marks_def squaresOf_def deref_fresh count_js_set)
qed

lemma alternating_commit:
  assumes "alternating s"
  shows "alternating (commit rnd s)"
proof -
  from assms have m: "mode s = PvP" "depsMode s = Some (mode s)" by (simp_all add: alternating_def)
  then have ai: "effectAI rnd s t = t" for t by (simp add: effectAI_def)
  have "squaresOf (effectStatus s s) = squaresOf s" "xIsNext (effectStatus s s) = xIsNext s"
    "mode (effectStatus s s) = mode s" "timers (effectStatus s s) = timers s"
    "board (effectStatus s s) = board s" "heap (effectStatus s s) = heap s"
    by (simp_all add: squaresOf_def effectStatus_fields)
  with assms m ai show ?thesis
    by (simp add: commit_def Let_def alternating_def marks_def squaresOf_def)
qed

lemma alternating_settle: "alternating s \<Longrightarrow> alternating (settle rnd s)"
  by (simp add: settle_def alternating_commit)

lemma alternating_restart: "alternating s \<Longrightarrow> alternating (handleRestart s)"
  by (simp add: alternating_def handleRestart_def alloc_def setAiFirstMove_def marks_def
      squaresOf_def deref_fresh emptyBoard_def count_list_replicate_None)

lemma alternating_fire:
  assumes "alternating s" "e \<noteq> SelectMode AI"
  shows "alternating (fire rnd s e)"
proof (cases e)
  case (Click i)
  with assms show ?thesis by (simp add: alternating_settle alternating_click)
next
  case (SelectMode m)
  with assms have "m = PvP" by (cases m) auto
  with assms have "s\<lparr>mode := m\<rparr> = s" by (simp add: alternating_def)
  with assms SelectMode show ?thesis by (simp add: alternating_settle)
next
  case Restart
  with assms show ?thesis by (simp add: alternating_settle alternating_restart)
next
  case Timeout
  with assms show ?thesis by (simp add: alternating_def)
qed

lemma alternating_mount: "alternating (mount rnd)"
  by (simp add: mount_def settle_def commit_def Let_def effectMode_def effectStatus_def
      effectAI_def alloc_def setAiFirstMove_def alternating_def marks_def squaresOf_def
      deref_def emptyBoard_def count_list_replicate_None
      calculateWinner_emptyBoard[unfolded emptyBoard_def] noStatus_def nth_append)

lemma alternating_foldl:
  "alternating s \<Longrightarrow> SelectMode AI \<notin> set evs \<Longrightarrow> alternating (foldl (fire rnd) s evs)"
  by (induction evs arbitrary: s) (auto simp: alternating_fire)

lemma pvp_alternation:
  assumes "SelectMode AI \<notin> set evs"
  shows "marks MarkX (run rnd evs) = marks MarkO (run rnd evs) \<or>
         marks MarkX (run rnd evs) = marks MarkO (run rnd evs) + 1"
proof -
  from alternating_foldl[OF alternating_mount assms] have "alternating (run rnd evs)"
    by (simp add: run_def)
  then show ?thesis by (auto simp: alternating_def)
qed

text \<open>
  Claim C8 (in every reachable state the counts of the two marks differ by at most one)
  does not hold of the component once mode \<^verbatim>\<open>"ai"\<close> is selected. The human plays
  square 0 and never touches the board again. When the timeout of the automated
  player's move fires, the move effect runs again: the board has changed and
  \<^verbatim>\<open>aiTurn\<close> is still \<^verbatim>\<open>true\<close> in that render (the status effect's
  \<^verbatim>\<open>setAITurn(false)\<close> only reaches the next one), so a second O is scheduled, and
  after it a third. After three timeouts the board holds one X and three O.
\<close>

theorem alternation_broken_in_ai_mode:
  "squaresOf (run (\<lambda>n. 0) [SelectMode AI, Click 0, Timeout, Timeout, Timeout])
     = [Some MarkX, None, Some MarkO, None, Some MarkO, None, Some MarkO, None, None] \<and>
   marks MarkX (run (\<lambda>n. 0) [SelectMode AI, Click 0, Timeout, Timeout, Timeout]) = 1 \<and>
   marks MarkO (run (\<lambda>n. 0) [SelectMode AI, Click 0, Timeout, Timeout, Timeout]) = 3"
  by code_simp

end
